theory Spec2Isabelle
  imports Complex_Main
begin

section \<open>The search cell of pc\_darts.py\<close>

text \<open>
  The development embeds the class \<open>PCDARTSSearchSpace\<close> of \<open>src/pc_darts.py\<close>:
  its constructor \<open>__init__\<close> and its method \<open>forward\<close>. The tensor library is
  not part of the repository, so the tensor type is a type variable \<open>'a\<close> and the
  library enters as two records of functions: the arithmetic \<open>forward\<close> uses
  (\<open>+\<close> and \<open>*\<close>) and the layer constructors \<open>__init__\<close> calls. Architecture
  parameters and softmax weights are real numbers. Every Python exception is a
  value \<open>Inl e\<close> of the result type.
\<close>

subsection \<open>Errors and Python list access\<close>

datatype error = IndexError | RuntimeError

text \<open>\<open>xs[i]\<close> for an index that is never negative (a loop counter).\<close>

definition getitem :: "'a list \<Rightarrow> nat \<Rightarrow> error + 'a" where
  "getitem xs i = (if i < length xs then Inr (xs ! i) else Inl IndexError)"

text \<open>\<open>range(n)\<close>: empty for \<open>n \<le> 0\<close>.\<close>

definition py_range :: "int \<Rightarrow> nat list" where
  "py_range n = [0..<nat n]"

subsection \<open>The tensor library as a parameter\<close>

text \<open>
  \<open>t_zero\<close> is the Python integer \<open>0\<close> that the builtin \<open>sum\<close> starts from,
  seen as a tensor operand; \<open>t_add a b\<close> is \<open>a + b\<close>, which raises where the
  operands do not broadcast; \<open>t_mul w a\<close> is the product of a zero-dimensional
  weight with a tensor.
\<close>

record 'a arith =
  t_zero :: 'a
  t_add :: "'a \<Rightarrow> 'a \<Rightarrow> error + 'a"
  t_mul :: "real \<Rightarrow> 'a \<Rightarrow> 'a"

type_synonym 'a op = "'a \<Rightarrow> error + 'a"

text \<open>
  The layer constructors of \<open>torch.nn\<close> that \<open>__init__\<close> calls:
  \<open>Conv2d in_channels out_channels kernel_size padding\<close> (bias is off in both
  calls of the source) and the two pooling layers with
  \<open>kernel_size stride padding\<close>. Building a convolution allocates its weight
  and may raise. \<open>allocates rows cols\<close> tells whether the library can allocate a
  matrix of that size: sizes beyond the 64-bit range or the memory of the machine
  make \<open>torch.randn\<close> raise.
\<close>

record 'a nn =
  allocates :: "int \<Rightarrow> int \<Rightarrow> bool"
  Conv2d :: "int \<Rightarrow> int \<Rightarrow> nat \<Rightarrow> nat \<Rightarrow> error + 'a op"
  MaxPool2d :: "nat \<Rightarrow> nat \<Rightarrow> nat \<Rightarrow> 'a op"
  AvgPool2d :: "nat \<Rightarrow> nat \<Rightarrow> nat \<Rightarrow> 'a op"

definition Identity :: "'a op" where
  "Identity x = Inr x"

subsection \<open>The cell and its constructor\<close>

record 'a PCDARTSSearchSpace =
  num_nodes :: int
  num_ops :: int
  in_channels :: int
  arch_parameters :: "real list list list"
  candidate_operations :: "'a op list"

text \<open>
  \<open>torch.randn(rows, cols)\<close>: a matrix of random entries, here drawn from a
  generator \<open>g\<close> given the number \<open>i\<close> of the call; a negative dimension raises,
  and so does a size the library cannot allocate.
\<close>

definition randn :: "'a nn \<Rightarrow> (nat \<Rightarrow> nat \<Rightarrow> nat \<Rightarrow> real) \<Rightarrow> nat \<Rightarrow> int \<Rightarrow> int \<Rightarrow>
    error + real list list" where
  "randn L g i rows cols =
     (if rows < 0 \<or> cols < 0 \<or> \<not> allocates L rows cols then Inl RuntimeError
      else Inr (map (\<lambda>r. map (\<lambda>c. g i r c) [0..<nat cols]) [0..<nat rows]))"

text \<open>The comprehension \<open>[nn.Parameter(torch.randn(i + 2, self.num_ops)) for i in range(self.num_nodes)]\<close>.\<close>

fun arch_init :: "'a nn \<Rightarrow> (nat \<Rightarrow> nat \<Rightarrow> nat \<Rightarrow> real) \<Rightarrow> int \<Rightarrow> nat list \<Rightarrow>
    error + real list list list" where
  "arch_init L g m [] = Inr []"
| "arch_init L g m (i # is) =
     (case randn L g i (int i + 2) m of
        Inl e \<Rightarrow> Inl e
      | Inr p \<Rightarrow> (case arch_init L g m is of Inl e \<Rightarrow> Inl e | Inr ps \<Rightarrow> Inr (p # ps)))"

text \<open>The module list of lines 32 to 51: five candidates, in this order.\<close>

definition candidate_ops :: "'a nn \<Rightarrow> int \<Rightarrow> error + 'a op list" where
  "candidate_ops L ch =
     (case Conv2d L ch ch 3 1 of
        Inl e \<Rightarrow> Inl e
      | Inr conv3 \<Rightarrow>
          (case Conv2d L ch ch 1 0 of
             Inl e \<Rightarrow> Inl e
           | Inr conv1 \<Rightarrow> Inr [Identity, conv3, conv1, MaxPool2d L 3 1 1, AvgPool2d L 3 1 1]))"

text \<open>
  \<open>__init__\<close>: it stores the three arguments, builds the parameter list and
  then the candidate operations. It checks none of its arguments.
\<close>

definition init :: "'a nn \<Rightarrow> (nat \<Rightarrow> nat \<Rightarrow> nat \<Rightarrow> real) \<Rightarrow> int \<Rightarrow> int \<Rightarrow> int \<Rightarrow>
    error + 'a PCDARTSSearchSpace" where
  "init L g n m ch =
     (case arch_init L g m (py_range n) of
        Inl e \<Rightarrow> Inl e
      | Inr ps \<Rightarrow>
          (case candidate_ops L ch of
             Inl e \<Rightarrow> Inl e
           | Inr ops \<Rightarrow>
               Inr \<lparr>num_nodes = n, num_ops = m, in_channels = ch,
                    arch_parameters = ps, candidate_operations = ops\<rparr>))"

subsection \<open>The forward pass\<close>

text \<open>\<open>F.softmax(v, dim=-1)\<close> on a vector.\<close>

definition softmax :: "real list \<Rightarrow> real list" where
  "softmax ws = map (\<lambda>w. exp w / sum_list (map exp ws)) ws"

text \<open>
  The innermost loop, \<open>for j, op in enumerate(self.candidate_operations)\<close>:
  it appends \<open>op_weights[j] * op(states[i])\<close> to \<open>node_inputs\<close>. Python
  evaluates \<open>op_weights[j]\<close> first, then \<open>states[i]\<close>, then the operation.
\<close>

fun ops_loop :: "'a arith \<Rightarrow> real list \<Rightarrow> 'a list \<Rightarrow> nat \<Rightarrow> nat \<Rightarrow> 'a op list \<Rightarrow> 'a list \<Rightarrow>
    error + 'a list" where
  "ops_loop A op_weights states i j [] node_inputs = Inr node_inputs"
| "ops_loop A op_weights states i j (op # ops) node_inputs =
     (case getitem op_weights j of
        Inl e \<Rightarrow> Inl e
      | Inr w \<Rightarrow>
          (case getitem states i of
             Inl e \<Rightarrow> Inl e
           | Inr s \<Rightarrow>
               (case op s of
                  Inl e \<Rightarrow> Inl e
                | Inr y \<Rightarrow>
                    ops_loop A op_weights states i (Suc j) ops (node_inputs @ [t_mul A w y]))))"

text \<open>The loop \<open>for i in range(min(node + 2, len(states)))\<close>; \<open>sources\<close> is its range.\<close>

definition sources :: "nat \<Rightarrow> 'a list \<Rightarrow> nat list" where
  "sources node states = [0..<min (node + 2) (length states)]"

fun inputs_loop :: "'a arith \<Rightarrow> 'a PCDARTSSearchSpace \<Rightarrow> nat \<Rightarrow> 'a list \<Rightarrow> nat list \<Rightarrow> 'a list \<Rightarrow>
    error + 'a list" where
  "inputs_loop A self node states [] node_inputs = Inr node_inputs"
| "inputs_loop A self node states (i # is) node_inputs =
     (case getitem (arch_parameters self) node of
        Inl e \<Rightarrow> Inl e
      | Inr alpha \<Rightarrow>
          (case getitem alpha i of
             Inl e \<Rightarrow> Inl e
           | Inr row \<Rightarrow>
               (case ops_loop A (softmax row) states i 0 (candidate_operations self) node_inputs of
                  Inl e \<Rightarrow> Inl e
                | Inr node_inputs' \<Rightarrow> inputs_loop A self node states is node_inputs')))"

text \<open>The builtin \<open>sum\<close>: it adds the items to the start value from left to right.\<close>

fun py_sum :: "'a arith \<Rightarrow> 'a \<Rightarrow> 'a list \<Rightarrow> error + 'a" where
  "py_sum A acc [] = Inr acc"
| "py_sum A acc (v # vs) =
     (case t_add A acc v of Inl e \<Rightarrow> Inl e | Inr acc' \<Rightarrow> py_sum A acc' vs)"

text \<open>The loop \<open>for node in range(self.num_nodes)\<close>; it returns the list \<open>states\<close>.\<close>

fun nodes_loop :: "'a arith \<Rightarrow> 'a PCDARTSSearchSpace \<Rightarrow> nat list \<Rightarrow> 'a list \<Rightarrow> error + 'a list" where
  "nodes_loop A self [] states = Inr states"
| "nodes_loop A self (node # nodes) states =
     (case inputs_loop A self node states (sources node states) [] of
        Inl e \<Rightarrow> Inl e
      | Inr node_inputs \<Rightarrow>
          (case py_sum A (t_zero A) node_inputs of
             Inl e \<Rightarrow> Inl e
           | Inr s \<Rightarrow> nodes_loop A self nodes (states @ [s])))"

text \<open>
  \<open>forward\<close> returns \<open>states[-1]\<close>, or the exception raised on the way, and the
  cell as the call leaves it: no statement of the method assigns to a field of
  \<open>self\<close>.
\<close>

definition forward :: "'a arith \<Rightarrow> 'a PCDARTSSearchSpace \<Rightarrow> 'a \<Rightarrow> (error + 'a) \<times> 'a PCDARTSSearchSpace" where
  "forward A self x =
     (case nodes_loop A self (py_range (num_nodes self)) [x] of
        Inl e \<Rightarrow> (Inl e, self)
      | Inr states \<Rightarrow> (Inr (last states), self))"

subsection \<open>The tensor library over shapes\<close>

text \<open>A generator for \<open>randn\<close> that draws zero everywhere, for concrete runs.\<close>

definition zeros :: "nat \<Rightarrow> nat \<Rightarrow> nat \<Rightarrow> real" where
  "zeros i r c = 0"

text \<open>
  Tensors as their shapes, by the shape rules the PyTorch documentation gives.
  Broadcasting aligns two shapes at their last dimension; two sizes agree when
  they are equal or one of them is 1. The Python integer \<open>0\<close> broadcasts as a
  scalar, the empty shape. A weight times a tensor has the tensor's shape.
\<close>

type_synonym shape = "nat list"

fun broadcast_rev :: "nat list \<Rightarrow> nat list \<Rightarrow> error + nat list" where
  "broadcast_rev [] ys = Inr ys"
| "broadcast_rev (x # xs) [] = Inr (x # xs)"
| "broadcast_rev (x # xs) (y # ys) =
     (if x = y \<or> y = 1 \<or> x = 1 then
        (case broadcast_rev xs ys of
           Inl e \<Rightarrow> Inl e
         | Inr zs \<Rightarrow> Inr ((if x = 1 then y else x) # zs))
      else Inl RuntimeError)"

definition broadcast :: "shape \<Rightarrow> shape \<Rightarrow> error + shape" where
  "broadcast a b =
     (case broadcast_rev (rev a) (rev b) of Inl e \<Rightarrow> Inl e | Inr zs \<Rightarrow> Inr (rev zs))"

definition shape_arith :: "shape arith" where
  "shape_arith = \<lparr>t_zero = [], t_add = broadcast, t_mul = (\<lambda>w s. s)\<rparr>"

text \<open>
  The size a sliding window of \<open>k\<close> cells leaves of \<open>h\<close> cells, with stride \<open>s\<close>
  and padding \<open>p\<close> on both sides: \<open>(h + 2p - k) div s + 1\<close>; a padded input
  smaller than the window raises.
\<close>

definition out_size :: "nat \<Rightarrow> nat \<Rightarrow> nat \<Rightarrow> nat \<Rightarrow> error + nat" where
  "out_size k s p h =
     (if s = 0 \<or> h + 2 * p < k then Inl RuntimeError else Inr ((h + 2 * p - k) div s + 1))"

fun spatial :: "nat \<Rightarrow> nat \<Rightarrow> nat \<Rightarrow> shape \<Rightarrow> error + shape" where
  "spatial k s p [h, w] =
     (case out_size k s p h of
        Inl e \<Rightarrow> Inl e
      | Inr h' \<Rightarrow> (case out_size k s p w of Inl e \<Rightarrow> Inl e | Inr w' \<Rightarrow> Inr [h', w']))"
| "spatial k s p hw = Inl RuntimeError"

text \<open>
  A convolution (stride 1) takes \<open>(N, C, H, W)\<close> or \<open>(C, H, W)\<close> with \<open>C\<close> its
  \<open>in_channels\<close>, and returns \<open>out_channels\<close> channels.
\<close>

definition conv2d_shape :: "int \<Rightarrow> int \<Rightarrow> nat \<Rightarrow> nat \<Rightarrow> shape op" where
  "conv2d_shape in_c out_c k p sh =
     (if length sh = 4 then
        (if int (sh ! 1) \<noteq> in_c then Inl RuntimeError
         else (case spatial k 1 p (drop 2 sh) of
                 Inl e \<Rightarrow> Inl e
               | Inr hw \<Rightarrow> Inr ([sh ! 0, nat out_c] @ hw)))
      else if length sh = 3 then
        (if int (sh ! 0) \<noteq> in_c then Inl RuntimeError
         else (case spatial k 1 p (drop 1 sh) of
                 Inl e \<Rightarrow> Inl e
               | Inr hw \<Rightarrow> Inr (nat out_c # hw)))
      else Inl RuntimeError)"

text \<open>A pooling layer keeps the leading dimensions; its padding is at most half the window.\<close>

definition pool2d_shape :: "nat \<Rightarrow> nat \<Rightarrow> nat \<Rightarrow> shape op" where
  "pool2d_shape k s p sh =
     (if k < 2 * p then Inl RuntimeError
      else if length sh = 4 \<or> length sh = 3 then
        (case spatial k s p (drop (length sh - 2) sh) of
           Inl e \<Rightarrow> Inl e
         | Inr hw \<Rightarrow> Inr (take (length sh - 2) sh @ hw))
      else Inl RuntimeError)"

text \<open>
  Building a convolution allocates a weight of \<open>out_c \<times> in_c \<times> k \<times> k\<close>; a negative
  size raises. The instance stands for a machine that holds matrices of fewer
  than \<open>2 ^ 31\<close> entries.
\<close>

definition shape_nn :: "shape nn" where
  "shape_nn =
     \<lparr>allocates = (\<lambda>rows cols. rows * cols < 2 ^ 31),
      Conv2d = (\<lambda>in_c out_c k p.
          if in_c < 0 \<or> out_c < 0 then Inl RuntimeError else Inr (conv2d_shape in_c out_c k p)),
      MaxPool2d = pool2d_shape,
      AvgPool2d = pool2d_shape\<rparr>"

subsection \<open>The mixture edge of the specification\<close>

text \<open>
  The source has no function for one edge: it appends the scaled results of every
  edge of a node to one list and sums the list. For comparison with the loops,
  \<open>edge_terms\<close> follows the specification's mixture edge (section 4.2, steps 1
  and 2): normalise the raw weights with softmax, apply candidate \<open>j\<close> to the
  source and scale the result by weight \<open>j\<close>. It is read only where every
  candidate returns.
\<close>

definition edge_terms :: "'a arith \<Rightarrow> 'a op list \<Rightarrow> real list \<Rightarrow> 'a \<Rightarrow> 'a list" where
  "edge_terms A ops raw_weights source =
     map (\<lambda>j. t_mul A (softmax raw_weights ! j) (projr ((ops ! j) source))) [0..<length ops]"

subsection \<open>Concrete cells\<close>

text \<open>
  The cells the constructor builds over shapes for \<open>n\<close> nodes, five weights and
  four channels, and for one weight.
\<close>

definition shape_cell :: "int \<Rightarrow> shape PCDARTSSearchSpace" where
  "shape_cell n = projr (init shape_nn zeros n 5 4)"

definition one_weight_cell :: "int \<Rightarrow> shape PCDARTSSearchSpace" where
  "one_weight_cell n = projr (init shape_nn zeros n 1 4)"

section \<open>What the loops compute\<close>

lemma ops_loop_Inr:
  "ops_loop A w sts i j ops ni = Inr r \<Longrightarrow>
     r = ni @ map (\<lambda>d. t_mul A (w ! (j + d)) (projr ((ops ! d) (sts ! i)))) [0..<length ops]"
proof (induction ops arbitrary: j ni)
  case Nil
  then show ?case by simp
next
  case (Cons op ops)
  from Cons.prems obtain y where y: "op (sts ! i) = Inr y" "j < length w" "i < length sts"
    and rest: "ops_loop A w sts i (Suc j) ops (ni @ [t_mul A (w ! j) y]) = Inr r"
    by (auto simp: getitem_def split: sum.splits if_splits)
  have "[0..<length (op # ops)] = 0 # map Suc [0..<length ops]"
    by (simp add: upt_conv_Cons map_Suc_upt del: upt_Suc)
  with Cons.IH[OF rest] y show ?case
    by (simp add: comp_def)
qed

lemma inputs_loop_Inr:
  "inputs_loop A self node sts is ni = Inr r \<Longrightarrow>
     r = ni @ concat (map (\<lambda>i. edge_terms A (candidate_operations self)
                                   (arch_parameters self ! node ! i) (sts ! i)) is)"
proof (induction "is" arbitrary: ni)
  case Nil
  then show ?case by simp
next
  case (Cons i "is")
  from Cons.prems obtain ni' where
    a: "ops_loop A (softmax (arch_parameters self ! node ! i)) sts i 0 (candidate_operations self) ni = Inr ni'"
    and b: "inputs_loop A self node sts is ni' = Inr r"
    by (auto simp: getitem_def split: sum.splits if_splits)
  from ops_loop_Inr[OF a] Cons.IH[OF b] show ?case
    by (simp add: edge_terms_def)
qed

text \<open>The state list only grows: one entry for each node, after the entries it had.\<close>

lemma nodes_loop_prefix:
  "nodes_loop A self nodes sts = Inr r \<Longrightarrow>
     take (length sts) r = sts \<and> length r = length sts + length nodes"
proof (induction nodes arbitrary: sts)
  case Nil
  then show ?case by simp
next
  case (Cons node nodes)
  from Cons.prems obtain s where
    "nodes_loop A self nodes (sts @ [s]) = Inr r"
    by (auto split: sum.splits)
  from Cons.IH[OF this] have t: "take (Suc (length sts)) r = sts @ [s]"
    and l: "length r = Suc (length sts) + length nodes"
    by simp_all
  have "take (length sts) r = take (length sts) (take (Suc (length sts)) r)"
    by (simp add: min_def)
  with t l show ?case by simp
qed

lemma nodes_loop_step:
  assumes "nodes_loop A self [a..<a + d] sts = Inr r" and "length sts = Suc a"
    and "a \<le> k" and "k < a + d"
  shows "\<exists>ni. inputs_loop A self k (take (Suc k) r) [0..<Suc k] [] = Inr ni \<and>
              py_sum A (t_zero A) ni = Inr (r ! Suc k)"
  using assms
proof (induction d arbitrary: a sts)
  case 0
  then show ?case by simp
next
  case (Suc d)
  have up: "[a..<a + Suc d] = a # [Suc a..<Suc a + d]"
    by (simp add: upt_conv_Cons)
  from Suc.prems(1) obtain ni s where
    ni: "inputs_loop A self a sts (sources a sts) [] = Inr ni"
    and s: "py_sum A (t_zero A) ni = Inr s"
    and rest: "nodes_loop A self [Suc a..<Suc a + d] (sts @ [s]) = Inr r"
    unfolding up by (auto split: sum.splits)
  from nodes_loop_prefix[OF rest] Suc.prems(2)
  have pre: "take (Suc (Suc a)) r = sts @ [s]" and len: "length r = Suc (Suc a) + d"
    by simp_all
  show ?case
  proof (cases "k = a")
    case True
    have "take (Suc a) r = take (Suc a) (take (Suc (Suc a)) r)"
      by (simp add: min_def)
    with pre Suc.prems(2) have t: "take (Suc a) r = sts" by simp
    have "r ! Suc a = (take (Suc (Suc a)) r) ! Suc a" by simp
    with pre Suc.prems(2) have n: "r ! Suc a = s" by (simp add: nth_append)
    have "sources a sts = [0..<Suc a]"
      using Suc.prems(2) by (simp add: sources_def)
    with ni s t n True show ?thesis by simp
  next
    case False
    with Suc.prems have "Suc a \<le> k" "k < Suc a + d" by simp_all
    from Suc.IH[OF rest _ this] Suc.prems(2) show ?thesis by simp
  qed
qed

text \<open>No statement of \<open>forward\<close> writes to the cell.\<close>

lemma forward_self: "snd (forward A self x) = self"
  by (simp add: forward_def split: sum.splits)

lemma inputs_loop_update:
  assumes "\<forall>i\<in>set is. i \<noteq> Suc k \<or> node \<noteq> k"
  shows "inputs_loop A (self\<lparr>arch_parameters := (arch_parameters self)[k := (arch_parameters self ! k)[Suc k := v]]\<rparr>)
           node sts is ni = inputs_loop A self node sts is ni"
  using assms
proof (induction "is" arbitrary: ni)
  case Nil
  then show ?case by simp
next
  case (Cons i "is")
  let ?P = "arch_parameters self"
  have row: "getitem (?P[k := (?P ! k)[Suc k := v]]) node = Inr alpha' \<Longrightarrow>
             \<exists>alpha. getitem ?P node = Inr alpha \<and> getitem alpha' i = getitem alpha i" for alpha'
  proof (cases "node = k")
    case True
    with Cons.prems have "i \<noteq> Suc k" by simp
    then show "getitem (?P[k := (?P ! k)[Suc k := v]]) node = Inr alpha' \<Longrightarrow> ?thesis"
      using True by (auto simp: getitem_def split: if_splits)
  next
    case False
    then show "getitem (?P[k := (?P ! k)[Suc k := v]]) node = Inr alpha' \<Longrightarrow> ?thesis"
      by (auto simp: getitem_def split: if_splits)
  qed
  have err: "getitem (?P[k := (?P ! k)[Suc k := v]]) node = Inl e \<longleftrightarrow> getitem ?P node = Inl e" for e
    by (auto simp: getitem_def)
  from Cons.prems have "\<forall>i\<in>set is. i \<noteq> Suc k \<or> node \<noteq> k" by simp
  note IH = Cons.IH[OF this]
  show ?case
  proof (cases "getitem (?P[k := (?P ! k)[Suc k := v]]) node")
    case (Inl e)
    with err[of e] show ?thesis by simp
  next
    case (Inr alpha')
    from row[OF Inr] obtain alpha where "getitem ?P node = Inr alpha" "getitem alpha' i = getitem alpha i"
      by blast
    with Inr IH show ?thesis by (simp split: sum.splits)
  qed
qed

lemma nodes_loop_update:
  "length sts = Suc a \<Longrightarrow>
   nodes_loop A (self\<lparr>arch_parameters := (arch_parameters self)[k := (arch_parameters self ! k)[Suc k := v]]\<rparr>)
      [a..<a + d] sts = nodes_loop A self [a..<a + d] sts"
proof (induction d arbitrary: a sts)
  case 0
  then show ?case by simp
next
  case (Suc d)
  have up: "[a..<a + Suc d] = a # [Suc a..<Suc a + d]"
    by (simp add: upt_conv_Cons)
  have src: "sources a sts = [0..<Suc a]"
    using Suc.prems by (simp add: sources_def)
  have "\<forall>i\<in>set (sources a sts). i \<noteq> Suc k \<or> a \<noteq> k"
    unfolding src by auto
  note inp = inputs_loop_update[OF this]
  have "length (sts @ [s]) = Suc (Suc a)" for s
    using Suc.prems by simp
  note IH = Suc.IH[OF this]
  show ?case
    unfolding up by (simp only: nodes_loop.simps inp IH)
qed

lemma arch_init_Inr:
  "arch_init L g m is = Inr ps \<Longrightarrow>
     map length ps = map (\<lambda>i. i + 2) is \<and> (\<forall>alpha\<in>set ps. \<forall>row\<in>set alpha. int (length row) = m)"
proof (induction "is" arbitrary: ps)
  case Nil
  then show ?case by simp
next
  case (Cons i "is")
  from Cons.prems obtain p ps' where p: "randn L g i (int i + 2) m = Inr p"
    and ps': "arch_init L g m is = Inr ps'" and ps: "ps = p # ps'"
    by (auto split: sum.splits)
  from p have "length p = i + 2" "\<forall>row\<in>set p. int (length row) = m"
    by (auto simp: randn_def split: if_splits)
  with Cons.IH[OF ps'] ps show ?case by simp
qed

subsection \<open>The constructor\<close>

lemma arch_init_rows:
  assumes "arch_init L g m (py_range n) = Inr ps"
  shows "length ps = nat n" and "k < nat n \<Longrightarrow> length (ps ! k) = k + 2"
    and "k < nat n \<Longrightarrow> i < k + 2 \<Longrightarrow> int (length (ps ! k ! i)) = m"
proof -
  from arch_init_Inr[OF assms] have ml: "map length ps = map (\<lambda>i. i + 2) [0..<nat n]"
    and rows: "\<forall>alpha\<in>set ps. \<forall>row\<in>set alpha. int (length row) = m"
    by (simp_all add: py_range_def)
  from ml have "length (map length ps) = length (map (\<lambda>i. i + 2) [0..<nat n])"
    by simp
  then show len: "length ps = nat n" by simp
  show lk: "length (ps ! k) = k + 2" if "k < nat n" for k
  proof -
    from that len have "length (ps ! k) = map length ps ! k" by simp
    also have "\<dots> = k + 2" using that by (simp add: ml)
    finally show ?thesis .
  qed
  show "int (length (ps ! k ! i)) = m" if "k < nat n" "i < k + 2"
  proof -
    from that len have "ps ! k \<in> set ps" by simp
    moreover from that lk have "ps ! k ! i \<in> set (ps ! k)" by simp
    ultimately show ?thesis using rows by blast
  qed
qed




subsection \<open>Shapes\<close>

lemma broadcast_rev_same: "broadcast_rev xs xs = Inr xs"
  by (induction xs) simp_all

lemma broadcast_same: "broadcast s s = Inr s"
  by (simp add: broadcast_def broadcast_rev_same)

lemma broadcast_scalar: "broadcast [] s = Inr s"
  by (simp add: broadcast_def)

lemma py_sum_shape: "\<forall>v\<in>set vs. v = s \<Longrightarrow> py_sum shape_arith s vs = Inr s"
  by (induction vs) (simp_all add: shape_arith_def broadcast_same)

lemma py_sum_shape_zero:
  "vs \<noteq> [] \<Longrightarrow> \<forall>v\<in>set vs. v = s \<Longrightarrow> py_sum shape_arith (t_zero shape_arith) vs = Inr s"
proof (cases vs)
  case Nil
  assume "vs \<noteq> []" with Nil show ?thesis by simp
next
  case (Cons v vs')
  assume "\<forall>v\<in>set vs. v = s"
  with Cons have "v = s" "\<forall>v\<in>set vs'. v = s" by simp_all
  with py_sum_shape[of vs' s] Cons show ?thesis
    by (simp add: shape_arith_def broadcast_scalar)
qed

lemma spatial_keeps:
  assumes "spatial k 1 p hw = Inr hw'" and "(k = 3 \<and> p = 1) \<or> (k = 1 \<and> p = 0)"
  shows "hw' = hw"
  using assms by (auto elim!: spatial.elims simp: out_size_def split: sum.splits if_splits)

lemma conv2d_shape_keeps:
  assumes "conv2d_shape ch ch k p s = Inr y" and "(k = 3 \<and> p = 1) \<or> (k = 1 \<and> p = 0)"
  shows "y = s"
proof (cases "length s = 4")
  case True
  with assms(1) obtain hw where c: "int (s ! 1) = ch" and hw: "spatial k 1 p (drop 2 s) = Inr hw"
    and y: "y = [s ! 0, nat ch] @ hw"
    by (auto simp: conv2d_shape_def split: if_splits sum.splits)
  from spatial_keeps[OF hw assms(2)] have "hw = drop 2 s" .
  moreover from True obtain a b r where "s = a # b # r"
    by (cases s; cases "tl s") auto
  ultimately show ?thesis using y c by auto
next
  case False
  with assms(1) obtain hw where l: "length s = 3" and c: "int (s ! 0) = ch"
    and hw: "spatial k 1 p (drop 1 s) = Inr hw" and y: "y = nat ch # hw"
    by (auto simp: conv2d_shape_def split: if_splits sum.splits)
  from spatial_keeps[OF hw assms(2)] have "hw = drop 1 s" .
  moreover from l obtain a r where "s = a # r"
    by (cases s) auto
  ultimately show ?thesis using y c by auto
qed

lemma pool2d_shape_keeps:
  assumes "pool2d_shape 3 1 1 s = Inr y"
  shows "y = s"
proof -
  from assms obtain hw where hw: "spatial 3 1 1 (drop (length s - 2) s) = Inr hw"
    and y: "y = take (length s - 2) s @ hw"
    by (auto simp: pool2d_shape_def split: if_splits sum.splits)
  from spatial_keeps[OF hw] have "hw = drop (length s - 2) s" by simp
  with y show ?thesis by simp
qed

lemma candidate_ops_keep:
  assumes "candidate_ops shape_nn ch = Inr ops"
  shows "length ops = 5 \<and> (\<forall>op\<in>set ops. \<forall>s y. op s = Inr y \<longrightarrow> y = s)"
proof -
  from assms have ops: "ops = [Identity, conv2d_shape ch ch 3 1, conv2d_shape ch ch 1 0,
                               pool2d_shape 3 1 1, pool2d_shape 3 1 1]"
    by (auto simp: candidate_ops_def shape_nn_def split: if_splits)
  show ?thesis
    unfolding ops
    by (auto simp: Identity_def simp del: One_nat_def dest: conv2d_shape_keeps pool2d_shape_keeps)
qed

lemma ops_loop_keeps:
  assumes "ops_loop shape_arith w sts i j ops ni = Inr r"
    and "\<forall>op\<in>set ops. \<forall>s y. op s = Inr y \<longrightarrow> y = s"
  shows "i < length sts \<or> ops = []" and "r = ni @ replicate (length ops) (sts ! i)"
  using assms
proof (induction ops arbitrary: j ni)
  case Nil
  { case 1 then show ?case by simp }
  { case 2 then show ?case by simp }
next
  case (Cons op ops)
  { case 1 then show ?case by (auto simp: getitem_def split: sum.splits if_splits) }
  { case 2
    from 2(1) obtain y where y: "op (sts ! i) = Inr y"
      and rest: "ops_loop shape_arith w sts i (Suc j) ops (ni @ [t_mul shape_arith (w ! j) y]) = Inr r"
      by (auto simp: getitem_def split: sum.splits if_splits)
    from y 2(2) have "y = sts ! i" by simp
    moreover from 2(2) have "\<forall>op\<in>set ops. \<forall>s y. op s = Inr y \<longrightarrow> y = s" by simp
    from Cons.IH(2)[OF rest this] have "r = (ni @ [t_mul shape_arith (w ! j) y]) @ replicate (length ops) (sts ! i)" .
    ultimately show ?case by (simp add: shape_arith_def replicate_append_same) }
qed

lemma inputs_loop_keeps:
  assumes "inputs_loop shape_arith self node sts is ni = Inr r"
    and "\<forall>op\<in>set (candidate_operations self). \<forall>s y. op s = Inr y \<longrightarrow> y = s"
    and "candidate_operations self \<noteq> []"
    and "\<forall>t\<in>set sts. t = s"
  shows "r = ni @ replicate (length is * length (candidate_operations self)) s"
  using assms(1)
proof (induction "is" arbitrary: ni)
  case Nil
  then show ?case by simp
next
  case (Cons i "is")
  let ?ops = "candidate_operations self"
  from Cons.prems obtain row ni' where
    a: "ops_loop shape_arith (softmax row) sts i 0 ?ops ni = Inr ni'"
    and b: "inputs_loop shape_arith self node sts is ni' = Inr r"
    by (auto split: sum.splits)
  from ops_loop_keeps[OF a assms(2)] assms(3)
  have i: "i < length sts" and ni': "ni' = ni @ replicate (length ?ops) (sts ! i)"
    by simp_all
  from i assms(4) have "sts ! i = s" by simp
  with ni' Cons.IH[OF b] show ?case
    by (simp add: replicate_add)
qed

lemma nodes_loop_keeps:
  assumes "nodes_loop shape_arith self nodes sts = Inr r"
    and "\<forall>op\<in>set (candidate_operations self). \<forall>s y. op s = Inr y \<longrightarrow> y = s"
    and "candidate_operations self \<noteq> []"
    and "sts \<noteq> []" and "\<forall>t\<in>set sts. t = s"
  shows "r \<noteq> [] \<and> (\<forall>t\<in>set r. t = s)"
  using assms(1,4,5)
proof (induction nodes arbitrary: sts)
  case Nil
  then show ?case by simp
next
  case (Cons node nodes)
  from Cons.prems(1) obtain ni y where
    ni: "inputs_loop shape_arith self node sts (sources node sts) [] = Inr ni"
    and y: "py_sum shape_arith (t_zero shape_arith) ni = Inr y"
    and rest: "nodes_loop shape_arith self nodes (sts @ [y]) = Inr r"
    by (auto split: sum.splits)
  from Cons.prems(2) have "sources node sts \<noteq> []"
    by (cases sts) (simp_all add: sources_def)
  with inputs_loop_keeps[OF ni assms(2,3) Cons.prems(3)] assms(3)
  have "ni \<noteq> []" "\<forall>v\<in>set ni. v = s"
    by auto
  from py_sum_shape_zero[OF this] y have "y = s" by simp
  with Cons.prems(3) have "sts @ [y] \<noteq> []" "\<forall>t\<in>set (sts @ [y]). t = s" by simp_all
  from Cons.IH[OF rest this] show ?case .
qed

lemma ops_loop_ok:
  assumes "i < length sts" and "j + length ops \<le> length w"
    and "\<forall>op\<in>set ops. op (sts ! i) = Inr (sts ! i)"
  shows "ops_loop shape_arith w sts i j ops ni = Inr (ni @ replicate (length ops) (sts ! i))"
  using assms(2,3)
proof (induction ops arbitrary: j ni)
  case Nil
  then show ?case by simp
next
  case (Cons op ops)
  from Cons.prems have "Suc j + length ops \<le> length w" "\<forall>op\<in>set ops. op (sts ! i) = Inr (sts ! i)"
    by simp_all
  from Cons.IH[OF this] Cons.prems assms(1) show ?case
    by (simp add: getitem_def shape_arith_def replicate_append_same)
qed

lemma inputs_loop_ok:
  assumes "node < length (arch_parameters self)"
    and "\<forall>i\<in>set is. i < length (arch_parameters self ! node) \<and> i < length sts \<and>
           length (candidate_operations self) \<le> length (arch_parameters self ! node ! i)"
    and "\<forall>t\<in>set sts. t = s"
    and "\<forall>op\<in>set (candidate_operations self). op s = Inr s"
  shows "inputs_loop shape_arith self node sts is ni
           = Inr (ni @ replicate (length is * length (candidate_operations self)) s)"
  using assms(2)
proof (induction "is" arbitrary: ni)
  case Nil
  then show ?case by simp
next
  case (Cons i "is")
  let ?ops = "candidate_operations self"
  let ?row = "arch_parameters self ! node ! i"
  from Cons.prems have i: "i < length (arch_parameters self ! node)" "i < length sts"
    and row: "0 + length ?ops \<le> length (softmax ?row)"
    by (simp_all add: softmax_def)
  from i assms(3) have si: "sts ! i = s" by simp
  with assms(4) have "\<forall>op\<in>set ?ops. op (sts ! i) = Inr (sts ! i)" by simp
  note ol = ops_loop_ok[OF i(2) row this]
  from Cons.prems have "\<forall>i\<in>set is. i < length (arch_parameters self ! node) \<and> i < length sts \<and>
           length ?ops \<le> length (arch_parameters self ! node ! i)" by simp
  note IH = Cons.IH[OF this]
  from assms(1) i show ?case
    by (simp add: getitem_def ol IH si replicate_add)
qed

lemma nodes_loop_ok:
  assumes "a + d \<le> length (arch_parameters self)"
    and "\<forall>k<length (arch_parameters self). \<forall>i\<le>k. i < length (arch_parameters self ! k) \<and>
           length (candidate_operations self) \<le> length (arch_parameters self ! k ! i)"
    and "candidate_operations self \<noteq> []"
    and "\<forall>op\<in>set (candidate_operations self). op s = Inr s"
  shows "nodes_loop shape_arith self [a..<a + d] (replicate (Suc a) s) = Inr (replicate (Suc (a + d)) s)"
  using assms(1)
proof (induction d arbitrary: a)
  case 0
  then show ?case by simp
next
  case (Suc d)
  let ?sts = "replicate (Suc a) s"
  let ?ops = "candidate_operations self"
  have up: "[a..<a + Suc d] = a # [Suc a..<Suc a + d]"
    by (simp add: upt_conv_Cons)
  have src: "sources a ?sts = [0..<Suc a]"
    by (simp add: sources_def)
  from Suc.prems have a: "a < length (arch_parameters self)" by simp
  with assms(2) have "\<forall>i\<in>set [0..<Suc a]. i < length (arch_parameters self ! a) \<and> i < length ?sts \<and>
           length ?ops \<le> length (arch_parameters self ! a ! i)"
    by simp
  from inputs_loop_ok[OF a this _ assms(4), of "[]"]
  have inp: "inputs_loop shape_arith self a ?sts (sources a ?sts) []
               = Inr (replicate (length [0..<Suc a] * length ?ops) s)"
    unfolding src by simp
  from assms(3) have "replicate (length [0..<Suc a] * length ?ops) s \<noteq> []"
    by simp
  from py_sum_shape_zero[OF this, of s]
  have s: "py_sum shape_arith (t_zero shape_arith) (replicate (length [0..<Suc a] * length ?ops) s) = Inr s"
    by simp
  have nxt: "?sts @ [s] = replicate (Suc (Suc a)) s"
    by (simp add: replicate_append_same)
  from Suc.prems have "Suc a + d \<le> length (arch_parameters self)" by simp
  note IH = Suc.IH[OF this]
  show ?case
    unfolding up by (simp only: nodes_loop.simps inp s sum.case nxt IH) simp
qed

lemma candidate_ops_ok:
  assumes "candidate_ops shape_nn ch = Inr ops"
    and "s = [b, nat ch, h, w] \<or> s = [nat ch, h, w]" and "0 < h" and "0 < w"
  shows "\<forall>op\<in>set ops. op s = Inr s"
proof -
  from assms(1) have ops: "ops = [Identity, conv2d_shape ch ch 3 1, conv2d_shape ch ch 1 0,
                               pool2d_shape 3 1 1, pool2d_shape 3 1 1]" and ch: "0 \<le> ch"
    by (auto simp: candidate_ops_def shape_nn_def split: if_splits)
  from assms(2-4) ch show ?thesis
    unfolding ops
    by (auto simp: Identity_def conv2d_shape_def pool2d_shape_def out_size_def)
qed

lemmas run_defs = forward_def init_def py_range_def candidate_ops_def shape_nn_def
  randn_def sources_def getitem_def softmax_def shape_arith_def Identity_def conv2d_shape_def
  pool2d_shape_def out_size_def broadcast_def zeros_def upt_rec shape_cell_def one_weight_cell_def

section \<open>The claims\<close>

subsection \<open>The edges of a node\<close>

text \<open>
  Claim C1, as the specification states it: node \<open>k\<close> evaluates \<open>k + 2\<close> mixture
  edges, one for each source index in \<open>0 .. k+1\<close>. The code does not: when node
  \<open>k\<close> runs, the state list holds the input and the outputs of the \<open>k\<close> earlier
  nodes, \<open>k + 1\<close> entries, and the loop bound \<open>min(node + 2, len(states))\<close> is
  \<open>k + 1\<close>. At node 0 of a one-node cell a single edge is evaluated, with one term
  for each of the five candidates.
\<close>

theorem node_edges_counterexample:
  "sources 0 [[2, 4, 8, 8 :: nat]] = [0] \<and>
   length (sources 0 [[2, 4, 8, 8 :: nat]]) \<noteq> 0 + 2 \<and>
   inputs_loop shape_arith (shape_cell 1) 0 [[2, 4, 8, 8]]
     (sources 0 [[2, 4, 8, 8]]) [] = Inr (replicate 5 [2, 4, 8, 8])"
  by (simp add: run_defs numeral_eq_Suc)

text \<open>
  Claim C1, amended: in a run of \<open>forward\<close> that returns, node \<open>k\<close> (for
  \<open>k < num_nodes\<close>) finds the \<open>k + 1\<close> states produced so far (the first \<open>k + 1\<close>
  entries of the final state list), evaluates exactly \<open>k + 1\<close> mixture edges, one
  for each source index \<open>0 .. k\<close>, and its output, entry \<open>k + 1\<close> of the state
  list, is Python's \<open>sum\<close> of the terms of those edges, in the order of the
  sources and, within an edge, of the candidates.
\<close>

theorem forward_node_edges:
  assumes "nodes_loop A self (py_range (num_nodes self)) [x] = Inr states"
    and "k < nat (num_nodes self)"
  shows "sources k (take (Suc k) states) = [0..<Suc k] \<and>
    (\<exists>node_inputs.
       inputs_loop A self k (take (Suc k) states) (sources k (take (Suc k) states)) [] = Inr node_inputs \<and>
       node_inputs = concat (map (\<lambda>i. edge_terms A (candidate_operations self)
                                         (arch_parameters self ! k ! i) (states ! i)) [0..<Suc k]) \<and>
       py_sum A (t_zero A) node_inputs = Inr (states ! Suc k))"
proof -
  from assms(1) have run: "nodes_loop A self [0..<0 + nat (num_nodes self)] [x] = Inr states"
    by (simp add: py_range_def)
  from nodes_loop_prefix[OF run] have len: "length states = Suc (nat (num_nodes self))"
    by simp
  with assms(2) have src: "sources k (take (Suc k) states) = [0..<Suc k]"
    by (simp add: sources_def min_def)
  from assms(2) have k: "k < 0 + nat (num_nodes self)" by simp
  from nodes_loop_step[OF run _ _ k] obtain ni where
    ni: "inputs_loop A self k (take (Suc k) states) [0..<Suc k] [] = Inr ni"
    and s: "py_sum A (t_zero A) ni = Inr (states ! Suc k)"
    by auto
  have "map (\<lambda>i. edge_terms A (candidate_operations self) (arch_parameters self ! k ! i)
                   (take (Suc k) states ! i)) [0..<Suc k]
      = map (\<lambda>i. edge_terms A (candidate_operations self) (arch_parameters self ! k ! i)
                   (states ! i)) [0..<Suc k]"
    by (rule map_cong) auto
  with inputs_loop_Inr[OF ni] have "ni = concat (map (\<lambda>i. edge_terms A (candidate_operations self)
                                         (arch_parameters self ! k ! i) (states ! i)) [0..<Suc k])"
    by (simp only: append_Nil)
  with src ni s show ?thesis by simp
qed

text \<open>
  The theorem at node 1 of the cell of two nodes, five weights and four channels,
  run on the shape \<open>(2, 4, 8, 8)\<close>: two edges of five terms each.
\<close>

theorem forward_node_edges_witness:
  "nodes_loop shape_arith (shape_cell 2) (py_range (num_nodes (shape_cell 2))) [[2, 4, 8, 8]]
     = Inr [[2, 4, 8, 8], [2, 4, 8, 8], [2, 4, 8, 8]] \<and>
   1 < nat (num_nodes (shape_cell 2)) \<and>
   sources 1 (take (Suc 1) [[2, 4, 8, 8], [2, 4, 8, 8], [2, 4, 8, 8 :: nat]]) = [0..<Suc 1] \<and>
   (\<exists>node_inputs.
       inputs_loop shape_arith (shape_cell 2) 1 (take (Suc 1) [[2, 4, 8, 8], [2, 4, 8, 8], [2, 4, 8, 8]])
         (sources 1 (take (Suc 1) [[2, 4, 8, 8], [2, 4, 8, 8], [2, 4, 8, 8 :: nat]])) [] = Inr node_inputs \<and>
       node_inputs = concat (map (\<lambda>i. edge_terms shape_arith (candidate_operations (shape_cell 2))
                                         (arch_parameters (shape_cell 2) ! 1 ! i)
                                         ([[2, 4, 8, 8], [2, 4, 8, 8], [2, 4, 8, 8]] ! i)) [0..<Suc 1]) \<and>
       py_sum shape_arith (t_zero shape_arith) node_inputs
         = Inr ([[2, 4, 8, 8], [2, 4, 8, 8], [2, 4, 8, 8]] ! Suc 1))"
proof -
  have run: "nodes_loop shape_arith (shape_cell 2) (py_range (num_nodes (shape_cell 2))) [[2, 4, 8, 8]]
     = Inr [[2, 4, 8, 8], [2, 4, 8, 8], [2, 4, 8, 8]]"
    by (simp add: run_defs)
  have k: "1 < nat (num_nodes (shape_cell 2))"
    by (simp add: run_defs)
  from forward_node_edges[OF run k] run k show ?thesis
    by blast
qed

subsection \<open>The parameter store\<close>

text \<open>
  Claim C7: after a construction with \<open>num_nodes = n\<close> that returns, the store
  holds for every node \<open>k\<close> in \<open>0 .. n-1\<close> exactly \<open>k + 2\<close> vectors, each of
  length \<open>num_ops\<close>; for \<open>n = 3\<close> the counts are \<open>[2, 3, 4]\<close>; and a call of
  \<open>forward\<close> leaves the store as it was.
\<close>

theorem arch_parameters_shape:
  assumes "init L g n m ch = Inr self"
  shows "map length (arch_parameters self) = map (\<lambda>k. k + 2) [0..<nat n] \<and>
         (\<forall>alpha\<in>set (arch_parameters self). \<forall>row\<in>set alpha. int (length row) = m) \<and>
         (n = 3 \<longrightarrow> map length (arch_parameters self) = [2, 3, 4]) \<and>
         arch_parameters (snd (forward A self x)) = arch_parameters self"
proof -
  from assms obtain ps where ps: "arch_init L g m (py_range n) = Inr ps" and a: "arch_parameters self = ps"
    by (auto simp: init_def split: sum.splits)
  from arch_init_Inr[OF ps] a
  have 1: "map length (arch_parameters self) = map (\<lambda>k. k + 2) [0..<nat n]"
    and 2: "\<forall>alpha\<in>set (arch_parameters self). \<forall>row\<in>set alpha. int (length row) = m"
    by (simp_all add: py_range_def)
  have "n = 3 \<Longrightarrow> map (\<lambda>k. k + 2) [0..<nat n] = [2, 3, 4]"
    by (simp add: upt_rec)
  with 1 2 show ?thesis by (simp add: forward_self)
qed

text \<open>The theorem at the cell of three nodes, five weights and four channels.\<close>

theorem arch_parameters_shape_witness:
  "init shape_nn zeros 3 5 4 = Inr (shape_cell 3) \<and>
   map length (arch_parameters (shape_cell 3)) = [2, 3, 4] \<and>
   map (map length) (arch_parameters (shape_cell 3)) = [[5, 5], [5, 5, 5], [5, 5, 5, 5]] \<and>
   arch_parameters (snd (forward shape_arith (shape_cell 3) [2, 4, 8, 8])) = arch_parameters (shape_cell 3)"
proof -
  have i: "init shape_nn zeros 3 5 4 = Inr (shape_cell 3)"
    by (simp add: shape_cell_def init_def py_range_def candidate_ops_def shape_nn_def
        randn_def upt_rec)
  have r: "map (map length) (arch_parameters (shape_cell 3)) = [[5, 5], [5, 5, 5], [5, 5, 5, 5]]"
    by (simp add: shape_cell_def init_def py_range_def candidate_ops_def shape_nn_def
        randn_def upt_rec)
  from arch_parameters_shape[OF i, of shape_arith "[2, 4, 8, 8]"] i r show ?thesis
    by (simp add: upt_rec)
qed

text \<open>
  Claim C8: the output of \<open>forward\<close> does not depend on the last vector of any
  node, \<open>arch_parameters[k][k+1]\<close>: replacing that vector by any other leaves
  the result, value or exception, as it was.
\<close>

theorem forward_ignores_last_row:
  "fst (forward A (self\<lparr>arch_parameters := (arch_parameters self)[k := (arch_parameters self ! k)[Suc k := v]]\<rparr>) x)
     = fst (forward A self x)"
proof -
  have "py_range (num_nodes self) = [0..<0 + nat (num_nodes self)]"
    by (simp add: py_range_def)
  moreover have "length [x] = Suc 0" by simp
  ultimately show ?thesis
    using nodes_loop_update[of "[x]" 0 A self k v "nat (num_nodes self)"]
    by (simp add: forward_def split: sum.splits)
qed

text \<open>
  Claim C10: \<open>forward\<close> never mutates the parameter store. After the call, whether
  it returned or raised, every vector of \<open>arch_parameters\<close> is what it was before.
\<close>

theorem forward_keeps_arch_parameters:
  "arch_parameters (snd (forward A self x)) = arch_parameters self"
  by (simp add: forward_self)

subsection \<open>Construction\<close>

text \<open>
  Claim C2, as the specification states it: a construction with \<open>num_nodes = 0\<close>
  fails with a configuration error. The constructor checks nothing: with no node
  the comprehension over \<open>range(0)\<close> builds an empty store, the construction
  returns, and \<open>forward\<close> returns its input.
\<close>

theorem init_zero_nodes_counterexample:
  "init shape_nn zeros 0 5 4 = Inr (shape_cell 0) \<and>
   arch_parameters (shape_cell 0) = [] \<and>
   fst (forward shape_arith (shape_cell 0) [2, 4, 8, 8]) = Inr [2, 4, 8, 8]"
  by (simp add: run_defs)

text \<open>
  Claim C2, amended: a construction with \<open>num_nodes = 0\<close> returns whenever the
  candidate operations can be built; the cell has an empty parameter store and
  its \<open>forward\<close> returns the input unchanged.
\<close>

theorem init_zero_nodes:
  "\<not> isl (candidate_ops L ch) \<longrightarrow>
     \<not> isl (init L g 0 m ch) \<and>
     arch_parameters (projr (init L g 0 m ch)) = [] \<and>
     fst (forward A (projr (init L g 0 m ch)) x) = Inr x"
  by (auto simp: init_def py_range_def forward_def split: sum.splits)

text \<open>The theorem at five weights and four channels, over shapes.\<close>

theorem init_zero_nodes_witness:
  "\<not> isl (candidate_ops shape_nn 4) \<and>
   \<not> isl (init shape_nn zeros 0 5 4) \<and>
   arch_parameters (projr (init shape_nn zeros 0 5 4)) = [] \<and>
   fst (forward shape_arith (projr (init shape_nn zeros 0 5 4)) [2, 4, 8, 8]) = Inr [2, 4, 8, 8]"
proof -
  have "\<not> isl (candidate_ops shape_nn 4)"
    by (simp add: candidate_ops_def shape_nn_def)
  with init_zero_nodes[of shape_nn 4 zeros 5 shape_arith "[2, 4, 8, 8]"] show ?thesis
    by simp
qed




subsection \<open>One weight for each edge\<close>




subsection \<open>Shapes\<close>

text \<open>
  Claim C6: for a cell with \<open>num_nodes \<ge> 1\<close>, whatever \<open>forward\<close> returns has
  the shape of its input; it does return, with that shape, for at least five
  weights on an input of \<open>in_channels\<close> channels and a positive height and
  width; and the cell of one node, five weights and four channels maps
  \<open>(2, 4, 8, 8)\<close> to \<open>(2, 4, 8, 8)\<close>.
\<close>

theorem forward_keeps_shape:
  assumes "init shape_nn g n m ch = Inr self"
  shows "(1 \<le> n \<and> fst (forward shape_arith self s) = Inr s' \<longrightarrow> s' = s) \<and>
         (1 \<le> n \<and> 5 \<le> m \<and> (s = [b, nat ch, h, w] \<or> s = [nat ch, h, w]) \<and> 0 < h \<and> 0 < w
            \<longrightarrow> fst (forward shape_arith self s) = Inr s) \<and>
         fst (forward shape_arith (shape_cell 1) [2, 4, 8, 8]) = Inr [2, 4, 8, 8]"
proof -
  from assms obtain ps ops where ps: "arch_init shape_nn g m (py_range n) = Inr ps"
    and ops: "candidate_ops shape_nn ch = Inr ops"
    and self: "self = \<lparr>num_nodes = n, num_ops = m, in_channels = ch,
                    arch_parameters = ps, candidate_operations = ops\<rparr>"
    by (auto simp: init_def split: sum.splits)
  from candidate_ops_keep[OF ops] self
  have keep: "\<forall>op\<in>set (candidate_operations self). \<forall>s y. op s = Inr y \<longrightarrow> y = s"
    and ne: "candidate_operations self \<noteq> []" and five: "length (candidate_operations self) = 5"
    by auto
  have part: "s' = s" if "fst (forward shape_arith self s) = Inr s'"
  proof -
    from that obtain r where r: "nodes_loop shape_arith self (py_range (num_nodes self)) [s] = Inr r"
      and s': "s' = last r"
      by (auto simp: forward_def split: sum.splits)
    from nodes_loop_keeps[OF r keep ne, of s] have "r \<noteq> []" "\<forall>t\<in>set r. t = s" by simp_all
    with s' show ?thesis by simp
  qed
  have total: "fst (forward shape_arith self s) = Inr s"
    if m: "5 \<le> m" and s: "s = [b, nat ch, h, w] \<or> s = [nat ch, h, w]" and h: "0 < h" and w: "0 < w"
  proof -
    from candidate_ops_ok[OF ops s h w] self
    have ok: "\<forall>op\<in>set (candidate_operations self). op s = Inr s" by simp
    have wf: "\<forall>k<length (arch_parameters self). \<forall>i\<le>k. i < length (arch_parameters self ! k) \<and>
           length (candidate_operations self) \<le> length (arch_parameters self ! k ! i)"
    proof (intro allI impI)
      fix k i assume "k < length (arch_parameters self)" and i: "i \<le> k"
      with self arch_init_rows(1)[OF ps] have k: "k < nat n" by simp
      from i have i2: "i < k + 2" by simp
      from arch_init_rows(2)[OF ps k] arch_init_rows(3)[OF ps k i2] i m five self
      show "i < length (arch_parameters self ! k) \<and>
           length (candidate_operations self) \<le> length (arch_parameters self ! k ! i)"
        by simp
    qed
    have "0 + nat n \<le> length (arch_parameters self)"
      by (simp add: self arch_init_rows(1)[OF ps])
    from nodes_loop_ok[OF this wf ne ok]
    have "nodes_loop shape_arith self (py_range (num_nodes self)) [s] = Inr (replicate (Suc (nat n)) s)"
      by (simp add: py_range_def self)
    then show ?thesis by (simp add: forward_def)
  qed
  have "fst (forward shape_arith (shape_cell 1) [2, 4, 8, 8]) = Inr [2, 4, 8, 8]"
    by (simp add: run_defs)
  with part total show ?thesis by blast
qed

text \<open>The theorem at the cell of three nodes, five weights and four channels.\<close>

theorem forward_keeps_shape_witness:
  "init shape_nn zeros 3 5 4 = Inr (shape_cell 3) \<and> (1 :: int) \<le> 3 \<and> (5 :: int) \<le> 5 \<and>
   fst (forward shape_arith (shape_cell 3) [2, 4, 8, 8]) = Inr [2, 4, 8, 8] \<and>
   fst (forward shape_arith (shape_cell 1) [2, 4, 8, 8]) = Inr [2, 4, 8, 8]"
proof -
  have i: "init shape_nn zeros 3 5 4 = Inr (shape_cell 3)"
    by (simp add: shape_cell_def init_def py_range_def candidate_ops_def shape_nn_def
        randn_def upt_rec)
  from forward_keeps_shape[OF i, of "[2, 4, 8, 8]" "[2, 4, 8, 8]" 2 8 8] i show ?thesis
    by simp
qed

end
